theory Spec2Isabelle
  imports Complex_Main "HOL-Library.Log_Nat"
begin

section \<open>Values exchanged with the environment\<close>

text \<open>
  The package \<open>retryhttp\<close> (file \<open>retry.go\<close>) wraps an \<open>*http.Client\<close>. Everything outside
  the package is an input of the model: the body stream of the request, its \<open>GetBody\<close>
  function, its context, and the underlying client.

  The values of Go's \<open>error\<close>: \<open>ErrMaxRetriesExceeded\<close> is the package's own exported
  variable (line 28); \<open>ContextErr\<close> is one of the two errors of package \<open>context\<close>;
  \<open>UrlError\<close> is a \<open>*url.Error\<close>, the only kind of error \<open>http.Client.Do\<close> returns;
  \<open>OtherErr\<close> is any other value. A body reader and \<open>GetBody\<close> are code of the caller:
  the error they return may be any of these values, the package's own variable too.
\<close>

type_synonym bytes = string

text \<open>\<open>time.Duration\<close>: a count of nanoseconds.\<close>
type_synonym duration = int

datatype ctx_error = Canceled | DeadlineExceeded

datatype error = ErrMaxRetriesExceeded | ContextErr ctx_error | UrlError string | OtherErr string

text \<open>
  An \<open>io.ReadCloser\<close>, given by what reading it to the end yields: the bytes, and the
  error that ended the read if it was not \<open>io.EOF\<close>.
\<close>
datatype reader = Reader bytes "error option"

fun ReadAll :: "reader \<Rightarrow> bytes \<times> error option" where
  "ReadAll (Reader bs e) = (bs, e)"

text \<open>\<open>io.NopCloser(bytes.NewReader(bodyBytes))\<close>\<close>
definition NewReader :: "bytes \<Rightarrow> reader" where
  "NewReader bodyBytes = Reader bodyBytes None"

record response =
  StatusCode :: int
  RespBody :: "reader option"

text \<open>
  The three places where \<open>Do\<close> looks at the context, each with the loop counter:
  \<open>ctx.Err()\<close> at line 144, \<open>ctx.Err()\<close> at lines 160-161, and \<open>ctx.Done()\<close> in the
  \<open>select\<close> of lines 175-183. The context of a request is given by what each look
  observes: \<open>None\<close> when the context is not done (at the \<open>select\<close>: when the timer fires
  first), otherwise the value of \<open>ctx.Err()\<close>. \<open>Do\<close> returns at the first look that finds
  the context done, so what later looks would observe never matters. Time itself is not
  modelled: a wait is an event with the duration given to \<open>time.After\<close>.
\<close>
datatype checkpoint = BeforeAttempt int | AfterAttempt int | DuringWait int

text \<open>
  The fields of \<open>http.Request\<close> that \<open>Do\<close> uses. \<open>GetBody\<close> may be a closure with state,
  so its result is indexed by the attempt before which it is called.
\<close>
record request =
  Body :: "reader option"
  GetBody :: "(int \<Rightarrow> error + reader) option"
  Context :: "checkpoint \<Rightarrow> ctx_error option"

section \<open>float64 arithmetic of the backoff computation\<close>

text \<open>
  Line 177 computes \<open>time.Duration(float64(backoff) * c.backoffMultiplier)\<close>. A finite
  \<open>float64\<close> is the rational number it denotes (the two zeros are not told apart: the value
  is only multiplied and converted to an integer). \<open>round_f64\<close> is IEEE 754 rounding to
  the nearest double, ties to even: 53 significant bits, least exponent \<open>-1022\<close> (gradual
  underflow below), overflow to infinity from \<open>2^1024\<close>.
\<close>

datatype float64 = Finite rat | PosInf | NegInf | NaN

definition pow2 :: "int \<Rightarrow> rat" where
  "pow2 e = (if 0 \<le> e then 2 ^ nat e else 1 / 2 ^ nat (- e))"

text \<open>\<open>ilog2 x\<close> is the integer \<open>e\<close> with \<open>2^e \<le> x < 2^(e+1)\<close>, for \<open>0 < x\<close>.\<close>
definition ilog2 :: "rat \<Rightarrow> int" where
  "ilog2 x = (case quotient_of x of (p, q) \<Rightarrow>
     (let e0 = bitlen p - bitlen q in if pow2 e0 \<le> x then e0 else e0 - 1))"

definition round_half_even :: "rat \<Rightarrow> int" where
  "round_half_even x = (let f = \<lfloor>x\<rfloor>; d = x - of_int f in
     if d < 1 / 2 then f else if 1 / 2 < d then f + 1 else if even f then f else f + 1)"

definition round_f64 :: "rat \<Rightarrow> float64" where
  "round_f64 x = (if x = 0 then Finite 0 else
     (let a = \<bar>x\<bar>; e = max (ilog2 a) (- 1022); q = pow2 (e - 52);
          r = of_int (round_half_even (a / q)) * q
      in if pow2 1024 \<le> r then (if 0 < x then PosInf else NegInf)
         else Finite (if 0 < x then r else - r)))"

text \<open>\<open>float64(backoff)\<close>\<close>
definition float64_of_int :: "int \<Rightarrow> float64" where
  "float64_of_int i = round_f64 (of_int i)"

fun f64_mul :: "float64 \<Rightarrow> float64 \<Rightarrow> float64" where
  "f64_mul NaN y = NaN"
| "f64_mul x NaN = NaN"
| "f64_mul (Finite a) (Finite b) = round_f64 (a * b)"
| "f64_mul (Finite a) PosInf = (if a = 0 then NaN else if 0 < a then PosInf else NegInf)"
| "f64_mul (Finite a) NegInf = (if a = 0 then NaN else if 0 < a then NegInf else PosInf)"
| "f64_mul PosInf (Finite b) = (if b = 0 then NaN else if 0 < b then PosInf else NegInf)"
| "f64_mul NegInf (Finite b) = (if b = 0 then NaN else if 0 < b then NegInf else PosInf)"
| "f64_mul PosInf PosInf = PosInf"
| "f64_mul PosInf NegInf = NegInf"
| "f64_mul NegInf PosInf = NegInf"
| "f64_mul NegInf NegInf = PosInf"

text \<open>
  The conversion \<open>time.Duration(f)\<close> of a \<open>float64\<close> to \<open>int64\<close> discards the fraction. When
  the value does not fit (or is not a number) the Go specification leaves the result to
  the implementation; \<open>int64_indefinite\<close> is what amd64 gives.
\<close>
definition int64_indefinite :: int where
  "int64_indefinite = - (2 ^ 63)"

definition int64_of_float64 :: "float64 \<Rightarrow> int" where
  "int64_of_float64 f = (case f of
      Finite r \<Rightarrow> (let t = (if 0 \<le> r then \<lfloor>r\<rfloor> else \<lceil>r\<rceil>)
                   in if - (2 ^ 63) \<le> t \<and> t < 2 ^ 63 then t else int64_indefinite)
    | _ \<Rightarrow> int64_indefinite)"

section \<open>The client\<close>

text \<open>
  The struct \<open>Client\<close> (lines 34-41). The field \<open>client\<close> is the underlying
  \<open>*http.Client\<close>: what its \<open>Do\<close> returns for the attempt with the given loop counter,
  sent with the given request body. Its error, when it returns one, is a \<open>*url.Error\<close>,
  given here by its message.
\<close>
record Client =
  client :: "int \<Rightarrow> reader option \<Rightarrow> response option \<times> string option"
  maxRetries :: int
  retryCondition :: "response option \<Rightarrow> error option \<Rightarrow> bool"
  initialBackoff :: duration
  backoffMultiplier :: float64
  maxBackoff :: duration

definition DefaultRetryCondition :: "response option \<Rightarrow> error option \<Rightarrow> bool" where
  "DefaultRetryCondition resp err =
     (if err \<noteq> None then True
      else (case resp of
              Some r \<Rightarrow> if 400 \<le> StatusCode r \<and> StatusCode r < 500 then True else False
            | None \<Rightarrow> False))"

type_synonym Option = "Client \<Rightarrow> Client"

definition WithClient :: "(int \<Rightarrow> reader option \<Rightarrow> response option \<times> string option) \<Rightarrow> Option" where
  "WithClient c = (\<lambda>cli. cli\<lparr>client := c\<rparr>)"

definition WithMaxRetries :: "int \<Rightarrow> Option" where
  "WithMaxRetries retries = (\<lambda>cli. cli\<lparr>maxRetries := retries\<rparr>)"

definition WithCondition :: "(response option \<Rightarrow> error option \<Rightarrow> bool) \<Rightarrow> Option" where
  "WithCondition cond = (\<lambda>cli. cli\<lparr>retryCondition := cond\<rparr>)"

definition WithInitialBackoff :: "duration \<Rightarrow> Option" where
  "WithInitialBackoff d = (\<lambda>cli. cli\<lparr>initialBackoff := d\<rparr>)"

definition WithBackoffMultiplier :: "float64 \<Rightarrow> Option" where
  "WithBackoffMultiplier m = (\<lambda>cli. cli\<lparr>backoffMultiplier := m\<rparr>)"

definition WithMaxBackoff :: "duration \<Rightarrow> Option" where
  "WithMaxBackoff d = (\<lambda>cli. cli\<lparr>maxBackoff := d\<rparr>)"

definition Millisecond :: duration where
  "Millisecond = 1000000"

definition Second :: duration where
  "Second = 1000 * Millisecond"

text \<open>\<open>New\<close> (lines 103-116); the first argument stands for \<open>http.DefaultClient\<close>.\<close>
definition New :: "(int \<Rightarrow> reader option \<Rightarrow> response option \<times> string option) \<Rightarrow> Option list \<Rightarrow> Client" where
  "New DefaultClient opts =
     foldl (\<lambda>cli opt. opt cli)
       \<lparr>client = DefaultClient, maxRetries = 5, retryCondition = DefaultRetryCondition,
        initialBackoff = 100 * Millisecond, backoffMultiplier = Finite 2,
        maxBackoff = 2 * Second\<rparr>
       opts"

section \<open>Do\<close>

text \<open>
  What a call of \<open>Do\<close> does besides returning: the attempts (loop counter, the request
  body handed to the underlying client, and the outcome), the response bodies it closes
  (line 171) and the waits it starts (line 176, with the duration given to \<open>time.After\<close>
  and how the \<open>select\<close> ended).
\<close>
datatype event =
    Attempt int "reader option" "response option" "error option"
  | CloseResp response
  | Wait duration "ctx_error option"

text \<open>The \<open>return\<close> statement that ended the call: lines 130, 145, 152, 161, 166, 182, 189.\<close>
datatype exit = ReadFailed | CancelledBefore | ReplayFailed | CancelledAfter
  | NotRetryable | CancelledWaiting | Exhausted

record result =
  ret_resp :: "response option"
  ret_err :: "error option"
  exit_at :: exit
  events :: "event list"

definition stop :: "response option \<Rightarrow> error option \<Rightarrow> exit \<Rightarrow> result" where
  "stop resp err ex = \<lparr>ret_resp = resp, ret_err = err, exit_at = ex, events = []\<rparr>"

definition emit :: "event list \<Rightarrow> result \<Rightarrow> result" where
  "emit evs r = r\<lparr>events := evs @ events r\<rparr>"

text \<open>Lines 127-138: buffer the request body if necessary.\<close>
definition buffer_body :: "request \<Rightarrow> error + request" where
  "buffer_body req =
     (case (Body req, GetBody req) of
        (Some rd, None) \<Rightarrow>
          (case ReadAll rd of
             (bodyBytes, Some readErr) \<Rightarrow> Inl readErr
           | (bodyBytes, None) \<Rightarrow>
               Inr (req\<lparr>Body := Some (NewReader bodyBytes),
                        GetBody := Some (\<lambda>_. Inr (NewReader bodyBytes))\<rparr>))
      | _ \<Rightarrow> Inr req)"

text \<open>Lines 149-155: for retries, reset the request body if available.\<close>
definition reset_body :: "request \<Rightarrow> int \<Rightarrow> error + request" where
  "reset_body req attempt =
     (case (Body req, GetBody req) of
        (Some _, Some getBody) \<Rightarrow>
          if 0 < attempt
          then (case getBody attempt of
                  Inl getErr \<Rightarrow> Inl getErr
                | Inr newBody \<Rightarrow> Inr (req\<lparr>Body := Some newBody\<rparr>))
          else Inr req
      | _ \<Rightarrow> Inr req)"

text \<open>
  Line 157: \<open>resp, err = c.client.Do(req)\<close>. The underlying client reads the body of
  the request and closes it; \<open>used req\<close> is the request afterwards, with nothing left to
  read from its body.
\<close>
definition drained :: reader where
  "drained = Reader [] None"

definition used :: "request \<Rightarrow> request" where
  "used req = req\<lparr>Body := map_option (\<lambda>_. drained) (Body req)\<rparr>"

definition roundtrip :: "Client \<Rightarrow> int \<Rightarrow> request \<Rightarrow> response option \<times> error option" where
  "roundtrip c attempt req =
     (case client c attempt (Body req) of (resp, e) \<Rightarrow> (resp, map_option UrlError e))"

text \<open>Lines 170-172: close the response body if retryable.\<close>
definition close_body :: "response option \<Rightarrow> event list" where
  "close_body resp =
     (case resp of
        Some r \<Rightarrow> (if RespBody r \<noteq> None then [CloseResp r] else [])
      | None \<Rightarrow> [])"

text \<open>Lines 177-180: the backoff after a wait that the timer ended.\<close>
definition next_backoff :: "Client \<Rightarrow> duration \<Rightarrow> duration" where
  "next_backoff c backoff =
     (let b = int64_of_float64 (f64_mul (float64_of_int backoff) (backoffMultiplier c))
      in if maxBackoff c < b then maxBackoff c else b)"

text \<open>
  The loop of lines 142-184 and the return of lines 186-189. The arguments after the
  request are the local variables \<open>attempt\<close>, \<open>backoff\<close>, \<open>resp\<close> and \<open>err\<close>. The counter
  is an unbounded integer: a Go \<open>int\<close> cannot overflow here before \<open>2^63\<close> iterations.
\<close>
function attempts :: "Client \<Rightarrow> request \<Rightarrow> int \<Rightarrow> duration \<Rightarrow> response option \<Rightarrow> error option \<Rightarrow> result" where
  "attempts c req attempt backoff resp err =
     (if attempt \<le> maxRetries c then
        (case Context req (BeforeAttempt attempt) of
           Some ce \<Rightarrow> stop None (Some (ContextErr ce)) CancelledBefore
         | None \<Rightarrow>
            (case reset_body req attempt of
               Inl getErr \<Rightarrow> stop None (Some getErr) ReplayFailed
             | Inr req' \<Rightarrow>
                (case roundtrip c attempt req' of
                   (resp', err') \<Rightarrow>
                     emit [Attempt attempt (Body req') resp' err']
                       (case Context req' (AfterAttempt attempt) of
                          Some ce \<Rightarrow> stop None (Some (ContextErr ce)) CancelledAfter
                        | None \<Rightarrow>
                           if \<not> retryCondition c resp' err' then stop resp' err' NotRetryable
                           else emit (close_body resp')
                             (case Context req' (DuringWait attempt) of
                                None \<Rightarrow>
                                  emit [Wait backoff None]
                                    (attempts c (used req') (attempt + 1) (next_backoff c backoff)
                                       resp' err')
                              | Some ce \<Rightarrow>
                                  emit [Wait backoff (Some ce)]
                                    (stop None (Some (ContextErr ce)) CancelledWaiting))))))
      else stop resp (if err = None then Some ErrMaxRetriesExceeded else err) Exhausted)"
  by pat_completeness auto
termination
  by (relation "measure (\<lambda>(c, req, attempt, backoff, resp, err). nat (maxRetries c + 1 - attempt))") auto

definition Do :: "Client \<Rightarrow> request \<Rightarrow> result" where
  "Do c req =
     (case buffer_body req of
        Inl readErr \<Rightarrow> stop None (Some readErr) ReadFailed
      | Inr req' \<Rightarrow> attempts c req' 0 (initialBackoff c) None None)"

section \<open>Observations on a call\<close>

text \<open>The outcomes of the attempts of a call, in order.\<close>
fun outcomes :: "event list \<Rightarrow> (response option \<times> error option) list" where
  "outcomes [] = []"
| "outcomes (Attempt i body resp err # evs) = (resp, err) # outcomes evs"
| "outcomes (CloseResp r # evs) = outcomes evs"
| "outcomes (Wait d w # evs) = outcomes evs"

text \<open>The request bodies handed to the underlying client, one for each attempt.\<close>
fun bodies_sent :: "event list \<Rightarrow> reader option list" where
  "bodies_sent [] = []"
| "bodies_sent (Attempt i body resp err # evs) = body # bodies_sent evs"
| "bodies_sent (CloseResp r # evs) = bodies_sent evs"
| "bodies_sent (Wait d w # evs) = bodies_sent evs"

text \<open>The durations given to \<open>time.After\<close>, one for each wait.\<close>
fun delays :: "event list \<Rightarrow> duration list" where
  "delays [] = []"
| "delays (Attempt i body resp err # evs) = delays evs"
| "delays (CloseResp r # evs) = delays evs"
| "delays (Wait d w # evs) = d # delays evs"

text \<open>
  The request as the loop holds it when iteration \<open>i\<close> begins, for a request \<open>req\<close> that
  entered the loop: untouched before the first attempt, sent at least once afterwards.
\<close>
definition request_at :: "request \<Rightarrow> int \<Rightarrow> request" where
  "request_at req i = (if i = 0 then req else used req)"

text \<open>
  What the underlying client answers at attempt \<open>i\<close>, to the request with the body that
  lines 149-155 give it for that attempt.
\<close>
definition attempt_outcome :: "Client \<Rightarrow> request \<Rightarrow> int \<Rightarrow> response option \<times> error option" where
  "attempt_outcome c req i =
     roundtrip c i (case reset_body (request_at req i) i of
                      Inr req' \<Rightarrow> req'
                    | Inl getErr \<Rightarrow> request_at req i)"

definition judged_retryable :: "Client \<Rightarrow> response option \<times> error option \<Rightarrow> bool" where
  "judged_retryable c out = retryCondition c (fst out) (snd out)"

text \<open>
  Nothing but the retry condition ends the call during attempts \<open>a\<close> to \<open>n\<close>: the
  context is not done before or after any of these attempts, nor during the waits
  between them, and \<open>GetBody\<close> returns no error.
\<close>
definition undisturbed :: "request \<Rightarrow> int \<Rightarrow> int \<Rightarrow> bool" where
  "undisturbed req a n =
     (\<forall>i \<in> {a..n}. Context req (BeforeAttempt i) = None
                  \<and> Context req (AfterAttempt i) = None
                  \<and> (i < n \<longrightarrow> Context req (DuringWait i) = None)
                  \<and> \<not> isl (reset_body (request_at req i) i))"

text \<open>
  Neither the read of the body at line 128 nor a call of \<open>GetBody\<close> at line 150 returns,
  as its own error, the package's variable \<open>ErrMaxRetriesExceeded\<close>.
\<close>
definition no_foreign_sentinel :: "Client \<Rightarrow> request \<Rightarrow> bool" where
  "no_foreign_sentinel c req =
     (case buffer_body req of
        Inl readErr \<Rightarrow> readErr \<noteq> ErrMaxRetriesExceeded
      | Inr req0 \<Rightarrow>
          (\<forall>i \<in> {0..maxRetries c}.
             reset_body (request_at req0 i) i \<noteq> Inl ErrMaxRetriesExceeded))"

text \<open>
  The events \<open>evs\<close> that follow an attempt begin with the close of the body of its
  response \<open>resp\<close>, when the response is not nil and has a body, and then a wait.
\<close>
definition closes_and_waits :: "response option \<Rightarrow> event list \<Rightarrow> bool" where
  "closes_and_waits resp evs =
     (case resp of
        Some r \<Rightarrow>
          (if RespBody r \<noteq> None
           then (case evs of CloseResp r' # Wait d w # rest \<Rightarrow> r' = r | _ \<Rightarrow> False)
           else (case evs of Wait d w # rest \<Rightarrow> True | _ \<Rightarrow> False))
      | None \<Rightarrow> (case evs of Wait d w # rest \<Rightarrow> True | _ \<Rightarrow> False))"

text \<open>
  Every attempt of the events whose outcome the retry condition judges retryable is
  followed by the close of the response body and by a wait. The one exception, when
  \<open>ended\<close> holds, is the last event: \<open>ended\<close> says that the call was ended by the look at the
  context right after its last attempt (line 161).
\<close>
fun retry_then_wait :: "Client \<Rightarrow> bool \<Rightarrow> event list \<Rightarrow> bool" where
  "retry_then_wait c ended [] = True"
| "retry_then_wait c ended (Attempt i body resp err # evs) =
     ((retryCondition c resp err \<and> \<not> (ended \<and> evs = []) \<longrightarrow> closes_and_waits resp evs)
      \<and> retry_then_wait c ended evs)"
| "retry_then_wait c ended (CloseResp r # evs) = retry_then_wait c ended evs"
| "retry_then_wait c ended (Wait d w # evs) = retry_then_wait c ended evs"

section \<open>Concrete clients and requests\<close>

text \<open>\<open>context.Background()\<close>, and a context that is cancelled before the call.\<close>
definition background :: "checkpoint \<Rightarrow> ctx_error option" where
  "background = (\<lambda>_. None)"

definition cancelled :: "checkpoint \<Rightarrow> ctx_error option" where
  "cancelled = (\<lambda>_. Some Canceled)"

text \<open>A context whose deadline passes while the first attempt is under way.\<close>
definition deadline_during_first_attempt :: "checkpoint \<Rightarrow> ctx_error option" where
  "deadline_during_first_attempt =
     (\<lambda>cp. if cp = BeforeAttempt 0 then None else Some DeadlineExceeded)"

definition status :: "int \<Rightarrow> response" where
  "status code = \<lparr>StatusCode = code, RespBody = Some (Reader [] None)\<rparr>"

text \<open>A server that always answers with the same status code.\<close>
definition always :: "int \<Rightarrow> int \<Rightarrow> reader option \<Rightarrow> response option \<times> string option" where
  "always code = (\<lambda>attempt body. (Some (status code), None))"

text \<open>The server of the test \<open>Retry on 403 - eventual success\<close>: 403 twice, then 200.\<close>
definition fails_twice :: "int \<Rightarrow> reader option \<Rightarrow> response option \<times> string option" where
  "fails_twice = (\<lambda>attempt body. (Some (status (if attempt + 1 < 3 then 403 else 200)), None))"

text \<open>A server that answers 403 once and then 200, and echoes nothing.\<close>
definition fails_once :: "int \<Rightarrow> reader option \<Rightarrow> response option \<times> string option" where
  "fails_once = (\<lambda>attempt body. (Some (status (if attempt + 1 = 1 then 403 else 200)), None))"

text \<open>\<open>http.NewRequest("GET", url, nil)\<close> with the background context.\<close>
definition get_request :: request where
  "get_request = \<lparr>Body = None, GetBody = None, Context = background\<rparr>"

text \<open>A request whose body is a plain reader, so that \<open>GetBody\<close> is nil.\<close>
definition post_request :: "reader \<Rightarrow> request" where
  "post_request rd = \<lparr>Body = Some rd, GetBody = None, Context = background\<rparr>"

text \<open>A request with a body and a \<open>GetBody\<close> of the caller's that fails with the given error.\<close>
definition failing_replay_request :: "error \<Rightarrow> request" where
  "failing_replay_request e =
     \<lparr>Body = Some (Reader ''par'' None), GetBody = Some (\<lambda>_. Inl e), Context = background\<rparr>"

text \<open>A retry condition that always asks for a retry.\<close>
definition retry_always :: "response option \<Rightarrow> error option \<Rightarrow> bool" where
  "retry_always resp err = True"

section \<open>Facts about the float64 arithmetic\<close>

lemma pow2_powi: "pow2 e = 2 powi e"
  by (simp add: pow2_def power_int_def field_simps)

lemma pow2_pos: "0 < pow2 e"
  by (simp add: pow2_powi)

lemma pow2_add: "pow2 (a + b) = pow2 a * pow2 b"
  by (simp add: pow2_powi power_int_add)

lemma pow2_mono: "a \<le> b \<Longrightarrow> pow2 a \<le> pow2 b"
  by (simp add: pow2_powi power_int_increasing)

lemma pow2_strict_mono: "a < b \<Longrightarrow> pow2 a < pow2 b"
  by (simp add: pow2_powi power_int_strict_increasing)

lemma pow2_le_cancel: "pow2 a \<le> pow2 b \<Longrightarrow> a \<le> b"
  using pow2_strict_mono[of b a] by (cases "a \<le> b") auto

lemma pow2_less_cancel: "pow2 a < pow2 b \<Longrightarrow> a < b"
  using pow2_mono[of b a] by (cases "a < b") auto

lemma pow2_nat: "pow2 (int n) = 2 ^ n"
  by (simp add: pow2_def)

lemma ilog2_lower:
  assumes "0 < x"
  shows "pow2 (ilog2 x) \<le> x"
proof -
  obtain p q where pq: "quotient_of x = (p, q)" by (cases "quotient_of x")
  then have q: "0 < q" and x: "x = of_int p / of_int q"
    using quotient_of_denom_pos quotient_of_div by blast+
  with assms have p: "0 < p"
    by (simp add: zero_less_divide_iff)
  let ?e = "bitlen p - bitlen q"
  have bp: "2 ^ nat (bitlen p - 1) \<le> p" and bq: "q < 2 ^ nat (bitlen q)"
    using bitlen_bounds[OF p] bitlen_bounds[OF q] by auto
  have bp1: "1 \<le> bitlen p" using p by (simp add: bitlen_alt_def)
  have bq0: "0 \<le> bitlen q" by (rule bitlen_nonneg)
  have "pow2 (?e - 1) \<le> x"
  proof -
    have "pow2 (?e - 1) * pow2 (bitlen q) = pow2 (bitlen p - 1)"
      by (simp add: pow2_add[symmetric])
    also have "\<dots> = of_int (2 ^ nat (bitlen p - 1))"
      using bp1 by (simp add: pow2_def)
    also have "\<dots> \<le> of_int p" using bp by (simp only: of_int_le_iff)
    finally have 1: "pow2 (?e - 1) * pow2 (bitlen q) \<le> of_int p" .
    have "of_int q \<le> (of_int (2 ^ nat (bitlen q)) :: rat)" using bq by (simp only: of_int_le_iff)
    also have "\<dots> = pow2 (bitlen q)" using bq0 by (simp add: pow2_def)
    finally have 2: "of_int q \<le> pow2 (bitlen q)" .
    have "pow2 (?e - 1) * of_int q \<le> pow2 (?e - 1) * pow2 (bitlen q)"
      using 2 pow2_pos[of "?e - 1"] by (simp add: mult_left_mono)
    with 1 have "pow2 (?e - 1) * of_int q \<le> of_int p" by linarith
    then show ?thesis using q by (simp add: x pos_le_divide_eq)
  qed
  then show ?thesis
    by (simp add: ilog2_def pq Let_def)
qed

lemma ilog2_upper:
  assumes "0 < x"
  shows "x < pow2 (ilog2 x + 1)"
proof -
  obtain p q where pq: "quotient_of x = (p, q)" by (cases "quotient_of x")
  then have q: "0 < q" and x: "x = of_int p / of_int q"
    using quotient_of_denom_pos quotient_of_div by blast+
  with assms have p: "0 < p"
    by (simp add: zero_less_divide_iff)
  let ?e = "bitlen p - bitlen q"
  have bp: "p < 2 ^ nat (bitlen p)" and bq: "2 ^ nat (bitlen q - 1) \<le> q"
    using bitlen_bounds[OF p] bitlen_bounds[OF q] by auto
  have bq1: "1 \<le> bitlen q" using q by (simp add: bitlen_alt_def)
  have bp0: "0 \<le> bitlen p" by (rule bitlen_nonneg)
  have "x < pow2 (?e + 1)"
  proof -
    have "of_int p < (of_int (2 ^ nat (bitlen p)) :: rat)" using bp by (simp only: of_int_less_iff)
    also have "\<dots> = pow2 (bitlen p)" using bp0 by (simp add: pow2_def)
    also have "\<dots> = pow2 (?e + 1) * pow2 (bitlen q - 1)"
      by (simp add: pow2_add[symmetric])
    also have "\<dots> = pow2 (?e + 1) * of_int (2 ^ nat (bitlen q - 1))"
      using bq1 by (simp add: pow2_def)
    also have "\<dots> \<le> pow2 (?e + 1) * of_int q"
      using bq pow2_pos[of "?e + 1"] by (simp only: of_int_le_iff mult_left_mono less_imp_le)
    finally have "of_int p < pow2 (?e + 1) * of_int q" .
    then show ?thesis using q by (simp add: x pos_divide_less_eq)
  qed
  then show ?thesis
    by (auto simp add: ilog2_def pq Let_def not_le)
qed

lemma round_half_even_of_int: "round_half_even (of_int k) = k"
  by (simp add: round_half_even_def)

lemma round_half_even_ge:
  assumes "of_int k \<le> x" shows "k \<le> round_half_even x"
proof -
  have "k \<le> \<lfloor>x\<rfloor>" using assms by (simp add: le_floor_iff)
  then show ?thesis by (auto simp: round_half_even_def Let_def)
qed

lemma round_half_even_le:
  assumes "x \<le> of_int k" shows "round_half_even x \<le> k"
proof (cases "x = of_int k")
  case True
  then show ?thesis by (simp add: round_half_even_of_int)
next
  case False
  with assms have "x < of_int k" by simp
  then have "\<lfloor>x\<rfloor> < k" by (simp add: floor_less_iff)
  then show ?thesis by (auto simp: round_half_even_def Let_def)
qed

lemma pow2_quantum_int:
  assumes "e \<le> 52"
  shows "of_int n / pow2 (e - 52) = of_int (n * 2 ^ nat (52 - e))"
  using assms by (simp add: pow2_def)

lemma round_f64_lower:
  assumes b: "0 < b" "b < 2 ^ 53" and x: "of_int b \<le> x"
  shows "round_f64 x = PosInf \<or> (\<exists>y. round_f64 x = Finite y \<and> of_int b \<le> y)"
proof -
  have xpos: "0 < x" using b x by (meson less_le_trans of_int_0_less_iff)
  define e where "e = max (ilog2 \<bar>x\<bar>) (- 1022)"
  define q where "q = pow2 (e - 52)"
  define n where "n = round_half_even (\<bar>x\<bar> / q)"
  have qpos: "0 < q" by (simp add: q_def pow2_pos)
  have r: "round_f64 x = (if pow2 1024 \<le> of_int n * q then PosInf else Finite (of_int n * q))"
    using xpos by (simp add: round_f64_def Let_def e_def q_def n_def)
  have "of_int b \<le> of_int n * q"
  proof (cases "e \<le> 52")
    case True
    have "of_int b / q = of_int (b * 2 ^ nat (52 - e))"
      unfolding q_def by (rule pow2_quantum_int[OF True])
    moreover have "of_int b / q \<le> \<bar>x\<bar> / q"
      using x xpos qpos by (simp add: divide_right_mono)
    ultimately have "b * 2 ^ nat (52 - e) \<le> n"
      unfolding n_def by (intro round_half_even_ge) simp
    then have "(of_int (b * 2 ^ nat (52 - e)) :: rat) \<le> of_int n"
      by (simp only: of_int_le_iff)
    then have "of_int b / q \<le> of_int n"
      using \<open>of_int b / q = of_int (b * 2 ^ nat (52 - e))\<close> by simp
    then show ?thesis using qpos by (simp add: pos_divide_le_eq)
  next
    case False
    then have e53: "53 \<le> e" by simp
    then have "e = ilog2 \<bar>x\<bar>" by (simp add: e_def max_def split: if_splits)
    then have le: "pow2 e \<le> x" using ilog2_lower[of "\<bar>x\<bar>"] xpos by simp
    have "pow2 e = pow2 52 * q" by (simp add: q_def pow2_add[symmetric])
    then have "pow2 52 * q \<le> x" using le by simp
    then have "pow2 52 \<le> \<bar>x\<bar> / q" using qpos xpos by (simp add: pos_le_divide_eq)
    moreover have "pow2 52 = of_int (2 ^ 52)" by (simp add: pow2_def)
    ultimately have "2 ^ 52 \<le> n" unfolding n_def by (intro round_half_even_ge) simp
    then have "(of_int (2 ^ 52) :: rat) \<le> of_int n" by (simp only: of_int_le_iff)
    then have "pow2 52 * q \<le> of_int n * q"
      using qpos \<open>pow2 52 = of_int (2 ^ 52)\<close> by (simp add: mult_right_mono)
    then have "pow2 e \<le> of_int n * q" using \<open>pow2 e = pow2 52 * q\<close> by simp
    moreover have "pow2 53 \<le> pow2 e" using e53 by (rule pow2_mono)
    moreover have "(of_int b :: rat) \<le> pow2 53"
    proof -
      have "(of_int b :: rat) \<le> of_int (2 ^ 53)" using b by (simp only: of_int_le_iff)
      then show ?thesis by (simp add: pow2_def)
    qed
    ultimately show ?thesis by linarith
  qed
  then show ?thesis by (simp add: r)
qed

lemma round_f64_upper:
  assumes x: "0 < x" "x \<le> 2 ^ 62"
  shows "\<exists>y. round_f64 x = Finite y \<and> 0 \<le> y \<and> y \<le> 2 ^ 62"
proof -
  define e where "e = max (ilog2 \<bar>x\<bar>) (- 1022)"
  define q where "q = pow2 (e - 52)"
  define n where "n = round_half_even (\<bar>x\<bar> / q)"
  have qpos: "0 < q" by (simp add: q_def pow2_pos)
  have r: "round_f64 x = (if pow2 1024 \<le> of_int n * q then PosInf else Finite (of_int n * q))"
    using x by (simp add: round_f64_def Let_def e_def q_def n_def)
  have "pow2 (ilog2 \<bar>x\<bar>) \<le> pow2 62"
    using ilog2_lower[of "\<bar>x\<bar>"] x by (simp add: pow2_def)
  then have "ilog2 \<bar>x\<bar> \<le> 62"
    by (rule pow2_le_cancel)
  then have e: "e \<le> 62" by (simp add: e_def)
  have "(2 ^ 62 :: rat) / q = of_int (2 ^ nat (114 - e))"
  proof -
    have "pow2 62 = pow2 (114 - e) * q" by (simp add: q_def pow2_add[symmetric])
    then have "pow2 62 / q = pow2 (114 - e)" using qpos by simp
    then show ?thesis using e by (simp add: pow2_def)
  qed
  moreover have "\<bar>x\<bar> / q \<le> 2 ^ 62 / q" using x qpos by (simp add: divide_right_mono)
  ultimately have "n \<le> 2 ^ nat (114 - e)"
    unfolding n_def by (intro round_half_even_le) simp
  then have "(of_int n :: rat) \<le> of_int (2 ^ nat (114 - e))" by (simp only: of_int_le_iff)
  then have "of_int n \<le> (2 ^ 62 :: rat) / q"
    using \<open>(2 ^ 62 :: rat) / q = of_int (2 ^ nat (114 - e))\<close> by simp
  then have le: "of_int n * q \<le> 2 ^ 62" using qpos by (simp add: pos_le_divide_eq)
  have "0 \<le> \<bar>x\<bar> / q" using qpos by simp
  then have "0 \<le> n" unfolding n_def by (intro round_half_even_ge) simp
  then have ge: "0 \<le> of_int n * q" using qpos by simp
  have "(2 ^ 62 :: rat) < pow2 1024" by (simp add: pow2_def)
  with le have "\<not> pow2 1024 \<le> of_int n * q" by linarith
  then show ?thesis using le ge by (simp add: r)
qed

lemma round_f64_int_exact:
  assumes "\<bar>i\<bar> < 2 ^ 53"
  shows "round_f64 (of_int i) = Finite (of_int i)"
proof (cases "i = 0")
  case True
  then show ?thesis by (simp add: round_f64_def)
next
  case False
  define x :: rat where "x = of_int i"
  define a where "a = \<bar>i\<bar>"
  have a: "0 < a" "a < 2 ^ 53" using False assms by (simp_all add: a_def)
  have ax: "\<bar>x\<bar> = of_int a" by (simp add: a_def x_def)
  have x0: "x \<noteq> 0" using False by (simp add: x_def)
  define e where "e = max (ilog2 \<bar>x\<bar>) (- 1022)"
  define q where "q = pow2 (e - 52)"
  define n where "n = round_half_even (\<bar>x\<bar> / q)"
  have qpos: "0 < q" by (simp add: q_def pow2_pos)
  have r: "round_f64 x = (if pow2 1024 \<le> of_int n * q then (if 0 < x then PosInf else NegInf)
      else Finite (if 0 < x then of_int n * q else - (of_int n * q)))"
    using x0 by (simp add: round_f64_def Let_def e_def q_def n_def)
  have "pow2 (ilog2 \<bar>x\<bar>) \<le> \<bar>x\<bar>" using x0 by (intro ilog2_lower) simp
  also have "\<bar>x\<bar> < of_int (2 ^ 53)" unfolding ax using a by (simp only: of_int_less_iff)
  also have "\<dots> = pow2 53" by (simp add: pow2_def)
  finally have "ilog2 \<bar>x\<bar> < 53" by (rule pow2_less_cancel)
  then have e: "e \<le> 52" by (simp add: e_def)
  have "of_int a / q = of_int (a * 2 ^ nat (52 - e))"
    unfolding q_def by (rule pow2_quantum_int[OF e])
  then have "n = a * 2 ^ nat (52 - e)"
    unfolding n_def ax by (simp only: round_half_even_of_int)
  then have "of_int n = of_int a / q"
    using \<open>of_int a / q = of_int (a * 2 ^ nat (52 - e))\<close> by simp
  then have nq: "of_int n * q = \<bar>x\<bar>" using qpos by (simp add: ax)
  have "\<bar>x\<bar> < of_int (2 ^ 53)" unfolding ax using a by (simp only: of_int_less_iff)
  also have "\<dots> < pow2 1024" by (simp add: pow2_def)
  finally have "\<not> pow2 1024 \<le> \<bar>x\<bar>" by simp
  then have "round_f64 x = Finite (if 0 < x then \<bar>x\<bar> else - \<bar>x\<bar>)"
    by (simp only: r nq if_False)
  then have "round_f64 x = Finite x" by (simp split: if_splits)
  then show ?thesis by (simp only: x_def)
qed

lemma int64_of_float64_Finite_nonneg:
  assumes "0 \<le> y" "y \<le> 2 ^ 62"
  shows "int64_of_float64 (Finite y) = \<lfloor>y\<rfloor>"
proof -
  have "0 \<le> \<lfloor>y\<rfloor>" using assms by simp
  moreover have "\<lfloor>y\<rfloor> \<le> 2 ^ 62"
  proof -
    have "y \<le> of_int (2 ^ 62)" using assms by simp
    then have "\<lfloor>y\<rfloor> \<le> \<lfloor>(of_int (2 ^ 62) :: rat)\<rfloor>" by (rule floor_mono)
    then show ?thesis by (simp only: floor_of_int)
  qed
  ultimately show ?thesis using assms by (simp add: int64_of_float64_def Let_def)
qed

lemma scale_ge:
  assumes b: "0 \<le> b" "b < 2 ^ 53" and r: "1 \<le> r" "of_int b * r \<le> 2 ^ 62"
  shows "b \<le> int64_of_float64 (f64_mul (float64_of_int b) (Finite r))"
proof -
  have fb: "float64_of_int b = Finite (of_int b)"
    unfolding float64_of_int_def using b by (intro round_f64_int_exact) simp
  show ?thesis
  proof (cases "b = 0")
    case True
    have "float64_of_int 0 = Finite 0" by (simp add: float64_of_int_def round_f64_def)
    then show ?thesis unfolding True by (simp add: round_f64_def int64_of_float64_def)
  next
    case False
    with b have bpos: "0 < b" by simp
    define x where "x = of_int b * r"
    have "of_int b * 1 \<le> of_int b * r" using r b by (intro mult_left_mono) simp_all
    then have bx: "of_int b \<le> x" by (simp add: x_def)
    then have xpos: "0 < x" using bpos by (meson less_le_trans of_int_0_less_iff)
    obtain y where y: "round_f64 x = Finite y" "0 \<le> y" "y \<le> 2 ^ 62"
      using round_f64_upper[OF xpos] r by (auto simp: x_def)
    have "of_int b \<le> y" using round_f64_lower[OF bpos b(2) bx] y by simp
    then have "b \<le> \<lfloor>y\<rfloor>" by (simp add: le_floor_iff)
    moreover have "int64_of_float64 (Finite y) = \<lfloor>y\<rfloor>"
      using y by (intro int64_of_float64_Finite_nonneg)
    ultimately show ?thesis
      by (simp add: fb x_def[symmetric] y)
  qed
qed

lemma scale_int:
  assumes "\<bar>b\<bar> < 2 ^ 53" "\<bar>b * k\<bar> < 2 ^ 53"
  shows "int64_of_float64 (f64_mul (float64_of_int b) (Finite (of_int k))) = b * k"
proof -
  have fb: "float64_of_int b = Finite (of_int b)"
    unfolding float64_of_int_def using assms by (intro round_f64_int_exact)
  define p where "p = b * k"
  have "round_f64 (of_int b * of_int k) = Finite (of_int p)"
    using round_f64_int_exact[OF assms(2)] by (simp add: p_def)
  then have "f64_mul (float64_of_int b) (Finite (of_int k)) = Finite (of_int p)"
    by (simp add: fb)
  moreover have "- (2 ^ 63) \<le> p" "p < 2 ^ 63" using assms(2) by (simp_all add: p_def)
  then have "int64_of_float64 (Finite (of_int p)) = p"
    by (simp add: int64_of_float64_def Let_def)
  ultimately show ?thesis by (simp add: p_def)
qed

lemma next_backoff_le: "next_backoff c b \<le> maxBackoff c"
  by (simp add: next_backoff_def Let_def)

lemma next_backoff_ge:
  assumes "0 \<le> b" "b \<le> maxBackoff c" "maxBackoff c < 2 ^ 53"
    and "backoffMultiplier c = Finite r" "1 \<le> r" "of_int (maxBackoff c) * r \<le> 2 ^ 62"
  shows "b \<le> next_backoff c b"
proof -
  have "of_int b * r \<le> of_int (maxBackoff c) * r"
    using assms by (intro mult_right_mono) simp_all
  then have "of_int b * r \<le> 2 ^ 62" using assms(6) by linarith
  then have "b \<le> int64_of_float64 (f64_mul (float64_of_int b) (Finite r))"
    using assms by (intro scale_ge) simp_all
  then show ?thesis using assms by (simp add: next_backoff_def Let_def)
qed

lemma next_backoff_int:
  assumes "backoffMultiplier c = Finite (of_int k)" "\<bar>b\<bar> < 2 ^ 53" "\<bar>b * k\<bar> < 2 ^ 53"
  shows "next_backoff c b = (if maxBackoff c < b * k then maxBackoff c else b * k)"
  using assms by (simp add: next_backoff_def scale_int)

lemma floor_rat_divide_numeral:
  "\<lfloor>(numeral a :: rat) / numeral b\<rfloor> = numeral a div numeral b"
  using floor_divide_of_int_eq[of "numeral a" "numeral b", where ?'a = rat] by simp

lemma round_f64_binade:
  assumes "pow2 e \<le> x" and "x < pow2 (e + 1)" and "- 1022 \<le> e" and "e \<le> 1022"
  shows "round_f64 x = Finite (of_int (round_half_even (x / pow2 (e - 52))) * pow2 (e - 52))"
proof -
  have xpos: "0 < x" using assms(1) pow2_pos[of e] by linarith
  have "pow2 (ilog2 x) < pow2 (e + 1)" using ilog2_lower[OF xpos] assms(2) by linarith
  then have "ilog2 x < e + 1" by (rule pow2_less_cancel)
  moreover have "pow2 e < pow2 (ilog2 x + 1)" using ilog2_upper[OF xpos] assms(1) by linarith
  then have "e < ilog2 x + 1" by (rule pow2_less_cancel)
  ultimately have e: "ilog2 x = e" by simp
  define q where "q = pow2 (e - 52)"
  define n where "n = round_half_even (x / q)"
  have qpos: "0 < q" by (simp add: q_def pow2_pos)
  have "pow2 53 * q = pow2 (53 + (e - 52))" by (simp only: q_def pow2_add)
  then have "pow2 (e + 1) = pow2 53 * q" by (simp add: add.commute)
  then have "x / q \<le> pow2 53" using assms(2) qpos by (simp add: pos_divide_le_eq)
  moreover have "pow2 53 = of_int (2 ^ 53)" by (simp add: pow2_def)
  ultimately have "n \<le> 2 ^ 53" unfolding n_def by (intro round_half_even_le) simp
  then have "(of_int n :: rat) \<le> of_int (2 ^ 53)" by (simp only: of_int_le_iff)
  then have "of_int n * q \<le> pow2 53 * q"
    using qpos \<open>pow2 53 = of_int (2 ^ 53)\<close> by (simp add: mult_right_mono)
  then have "of_int n * q \<le> pow2 (e + 1)" using \<open>pow2 (e + 1) = pow2 53 * q\<close> by simp
  moreover have "pow2 (e + 1) < pow2 1024" using assms(4) by (intro pow2_strict_mono) simp
  ultimately have "\<not> pow2 1024 \<le> of_int n * q" by linarith
  then have no_overflow: "\<not> pow2 1024
      \<le> of_int (round_half_even (x / pow2 (e - 52))) * pow2 (e - 52)"
    unfolding n_def q_def .
  have m: "max (ilog2 x) (- 1022) = e" using e assms(3) by simp
  have ax: "\<bar>x\<bar> = x" using xpos by simp
  have "x \<noteq> 0" using xpos by simp
  then show ?thesis
    using xpos no_overflow by (simp add: round_f64_def Let_def ax m del: abs_of_pos)
qed

lemma float64_of_int_2_53_plus_1: "float64_of_int 9007199254740993 = Finite 9007199254740992"
proof -
  have "round_f64 9007199254740993 =
      Finite (of_int (round_half_even (9007199254740993 / pow2 (53 - 52))) * pow2 (53 - 52))"
    by (rule round_f64_binade) (simp_all add: pow2_def)
  then show ?thesis
    by (simp add: float64_of_int_def pow2_def round_half_even_def Let_def floor_rat_divide_numeral)
qed

lemma round_f64_2_53: "round_f64 9007199254740992 = Finite 9007199254740992"
proof -
  have "round_f64 9007199254740992 =
      Finite (of_int (round_half_even (9007199254740992 / pow2 (53 - 52))) * pow2 (53 - 52))"
    by (rule round_f64_binade) (simp_all add: pow2_def)
  then show ?thesis
    by (simp add: pow2_def round_half_even_def Let_def floor_rat_divide_numeral)
qed

lemma next_backoff_2_53_plus_1:
  "backoffMultiplier c = Finite 1 \<Longrightarrow> maxBackoff c = 9007199254740993 \<Longrightarrow>
   next_backoff c 9007199254740993 = 9007199254740992"
  by (simp add: next_backoff_def float64_of_int_2_53_plus_1 round_f64_2_53 int64_of_float64_def)

section \<open>Facts about the loop\<close>

declare attempts.simps [simp del]

lemma events_emit [simp]: "events (emit evs r) = evs @ events r"
  and ret_resp_emit [simp]: "ret_resp (emit evs r) = ret_resp r"
  and ret_err_emit [simp]: "ret_err (emit evs r) = ret_err r"
  and exit_at_emit [simp]: "exit_at (emit evs r) = exit_at r"
  by (simp_all add: emit_def)

lemma stop_sel [simp]:
  "events (stop resp err ex) = []" "ret_resp (stop resp err ex) = resp"
  "ret_err (stop resp err ex) = err" "exit_at (stop resp err ex) = ex"
  by (simp_all add: stop_def)

lemma emit_emit: "emit xs (emit ys r) = emit (xs @ ys) r"
  by (simp add: emit_def)

lemma outcomes_append [simp]: "outcomes (xs @ ys) = outcomes xs @ outcomes ys"
  by (induction xs rule: outcomes.induct) simp_all

lemma bodies_sent_append [simp]: "bodies_sent (xs @ ys) = bodies_sent xs @ bodies_sent ys"
  by (induction xs rule: bodies_sent.induct) simp_all

lemma delays_append [simp]: "delays (xs @ ys) = delays xs @ delays ys"
  by (induction xs rule: delays.induct) simp_all

lemma close_body_obs [simp]:
  "outcomes (close_body resp) = []" "bodies_sent (close_body resp) = []"
  "delays (close_body resp) = []"
  by (simp_all add: close_body_def split: option.splits)

text \<open>One iteration, by the way it ends.\<close>

lemma attempts_exhausted:
  "\<not> attempt \<le> maxRetries c \<Longrightarrow>
   attempts c req attempt backoff resp err =
     stop resp (if err = None then Some ErrMaxRetriesExceeded else err) Exhausted"
  by (subst attempts.simps) simp

lemma attempts_cancelled_before:
  "attempt \<le> maxRetries c \<Longrightarrow> Context req (BeforeAttempt attempt) = Some ce \<Longrightarrow>
   attempts c req attempt backoff resp err = stop None (Some (ContextErr ce)) CancelledBefore"
  by (subst attempts.simps) simp

lemma attempts_replay_failed:
  "attempt \<le> maxRetries c \<Longrightarrow> Context req (BeforeAttempt attempt) = None \<Longrightarrow>
   reset_body req attempt = Inl getErr \<Longrightarrow>
   attempts c req attempt backoff resp err = stop None (Some getErr) ReplayFailed"
  by (subst attempts.simps) simp

lemma attempts_sent:
  "attempt \<le> maxRetries c \<Longrightarrow> Context req (BeforeAttempt attempt) = None \<Longrightarrow>
   reset_body req attempt = Inr req' \<Longrightarrow> roundtrip c attempt req' = (resp', err') \<Longrightarrow>
   attempts c req attempt backoff resp err =
     emit [Attempt attempt (Body req') resp' err']
       (case Context req' (AfterAttempt attempt) of
          Some ce \<Rightarrow> stop None (Some (ContextErr ce)) CancelledAfter
        | None \<Rightarrow>
           if \<not> retryCondition c resp' err' then stop resp' err' NotRetryable
           else emit (close_body resp')
             (case Context req' (DuringWait attempt) of
                None \<Rightarrow>
                  emit [Wait backoff None]
                    (attempts c (used req') (attempt + 1) (next_backoff c backoff) resp' err')
              | Some ce \<Rightarrow>
                  emit [Wait backoff (Some ce)]
                    (stop None (Some (ContextErr ce)) CancelledWaiting)))"
  by (subst attempts.simps) simp

text \<open>Induction over the iterations of the loop, one case for each way an iteration ends.\<close>
lemma attempts_induct_rule [consumes 1, case_names exhausted cancelled_before replay_failed
    cancelled_after not_retryable cancelled_waiting continue]:
  assumes "r = attempts c req a b resp err"
    and "\<And>req a b resp err. \<not> a \<le> maxRetries c \<Longrightarrow>
      P req a b resp err
        (stop resp (if err = None then Some ErrMaxRetriesExceeded else err) Exhausted)"
    and "\<And>req a b resp err ce. a \<le> maxRetries c \<Longrightarrow>
      Context req (BeforeAttempt a) = Some ce \<Longrightarrow>
      P req a b resp err (stop None (Some (ContextErr ce)) CancelledBefore)"
    and "\<And>req a b resp err getErr. a \<le> maxRetries c \<Longrightarrow>
      Context req (BeforeAttempt a) = None \<Longrightarrow> reset_body req a = Inl getErr \<Longrightarrow>
      P req a b resp err (stop None (Some getErr) ReplayFailed)"
    and "\<And>req a b resp err req' resp' err' ce. a \<le> maxRetries c \<Longrightarrow>
      Context req (BeforeAttempt a) = None \<Longrightarrow> reset_body req a = Inr req' \<Longrightarrow>
      roundtrip c a req' = (resp', err') \<Longrightarrow> Context req' (AfterAttempt a) = Some ce \<Longrightarrow>
      P req a b resp err
        (emit [Attempt a (Body req') resp' err']
           (stop None (Some (ContextErr ce)) CancelledAfter))"
    and "\<And>req a b resp err req' resp' err'. a \<le> maxRetries c \<Longrightarrow>
      Context req (BeforeAttempt a) = None \<Longrightarrow> reset_body req a = Inr req' \<Longrightarrow>
      roundtrip c a req' = (resp', err') \<Longrightarrow> Context req' (AfterAttempt a) = None \<Longrightarrow>
      \<not> retryCondition c resp' err' \<Longrightarrow>
      P req a b resp err
        (emit [Attempt a (Body req') resp' err'] (stop resp' err' NotRetryable))"
    and "\<And>req a b resp err req' resp' err' ce. a \<le> maxRetries c \<Longrightarrow>
      Context req (BeforeAttempt a) = None \<Longrightarrow> reset_body req a = Inr req' \<Longrightarrow>
      roundtrip c a req' = (resp', err') \<Longrightarrow> Context req' (AfterAttempt a) = None \<Longrightarrow>
      retryCondition c resp' err' \<Longrightarrow> Context req' (DuringWait a) = Some ce \<Longrightarrow>
      P req a b resp err
        (emit ([Attempt a (Body req') resp' err'] @ close_body resp' @ [Wait b (Some ce)])
           (stop None (Some (ContextErr ce)) CancelledWaiting))"
    and "\<And>req a b resp err req' resp' err'. a \<le> maxRetries c \<Longrightarrow>
      Context req (BeforeAttempt a) = None \<Longrightarrow> reset_body req a = Inr req' \<Longrightarrow>
      roundtrip c a req' = (resp', err') \<Longrightarrow> Context req' (AfterAttempt a) = None \<Longrightarrow>
      retryCondition c resp' err' \<Longrightarrow> Context req' (DuringWait a) = None \<Longrightarrow>
      P (used req') (a + 1) (next_backoff c b) resp' err'
        (attempts c (used req') (a + 1) (next_backoff c b) resp' err') \<Longrightarrow>
      P req a b resp err
        (emit ([Attempt a (Body req') resp' err'] @ close_body resp' @ [Wait b None])
           (attempts c (used req') (a + 1) (next_backoff c b) resp' err'))"
  shows "P req a b resp err r"
  using assms(2-) unfolding assms(1)
proof (induction c req a b resp err rule: attempts.induct)
  case (1 c req a b resp err)
  show ?case
  proof (cases "a \<le> maxRetries c")
    case False
    show ?thesis unfolding attempts_exhausted[OF False] by (rule "1.prems"(1)[OF False])
  next
    case le: True
    show ?thesis
    proof (cases "Context req (BeforeAttempt a)")
      case (Some ce)
      show ?thesis unfolding attempts_cancelled_before[OF le Some]
        by (rule "1.prems"(2)[OF le Some])
    next
      case before: None
      show ?thesis
      proof (cases "reset_body req a")
        case (Inl getErr)
        show ?thesis unfolding attempts_replay_failed[OF le before Inl]
          by (rule "1.prems"(3)[OF le before Inl])
      next
        case (Inr req')
        obtain resp' err' where rt: "roundtrip c a req' = (resp', err')"
          by (cases "roundtrip c a req'")
        note unfold = attempts_sent[OF le before Inr rt]
        show ?thesis
        proof (cases "Context req' (AfterAttempt a)")
          case (Some ce)
          then show ?thesis using "1.prems"(4)[OF le before Inr rt Some] by (simp add: unfold)
        next
          case after: None
          show ?thesis
          proof (cases "retryCondition c resp' err'")
            case False
            then show ?thesis
              using "1.prems"(5)[OF le before Inr rt after False] after by (simp add: unfold)
          next
            case retry: True
            show ?thesis
            proof (cases "Context req' (DuringWait a)")
              case (Some ce)
              then show ?thesis
                using "1.prems"(6)[OF le before Inr rt after retry Some] after retry
                by (simp add: unfold emit_emit)
            next
              case wait: None
              have "P (used req') (a + 1) (next_backoff c b) resp' err'
                  (attempts c (used req') (a + 1) (next_backoff c b) resp' err')"
                using "1.IH"[OF le before Inr rt[symmetric] after _ wait] retry "1.prems"
                by simp
              then show ?thesis
                using "1.prems"(7)[OF le before Inr rt after retry wait] after retry wait
                by (simp add: unfold emit_emit)
            qed
          qed
        qed
      qed
    qed
  qed
qed

lemma roundtrip_url_error:
  "roundtrip c a req = (resp, err) \<Longrightarrow> err \<noteq> Some ErrMaxRetriesExceeded"
  by (auto simp: roundtrip_def split: prod.splits)

lemma attempts_count_aux:
  "r = attempts c req a b resp err \<Longrightarrow>
   length (outcomes (events r)) \<le> nat (maxRetries c + 1 - a)"
  by (induction req a b resp err r rule: attempts_induct_rule) auto

lemma attempts_exhausted_waits_aux:
  "r = attempts c req a b resp err \<Longrightarrow> exit_at r = Exhausted \<Longrightarrow>
     length (delays (events r)) = length (outcomes (events r))
     \<and> length (outcomes (events r)) = nat (maxRetries c + 1 - a)
     \<and> (a \<le> maxRetries c \<longrightarrow> (\<exists>d. last (events r) = Wait d None) \<and> events r \<noteq> [])"
proof (induction req a b resp err r rule: attempts_induct_rule)
  case (continue req a b resp err req' resp' err')
  then show ?case
    by (cases "a + 1 \<le> maxRetries c") (auto simp: attempts_exhausted)
qed auto

lemma retry_then_wait_close_body:
  "retry_then_wait c ended (close_body resp @ evs) = retry_then_wait c ended evs"
  by (simp add: close_body_def split: option.splits)

lemma closes_and_waits_close_body:
  "closes_and_waits resp (close_body resp @ Wait d w # rest)"
  by (simp add: closes_and_waits_def close_body_def split: option.splits)

lemma attempts_retry_then_wait_aux:
  "r = attempts c req a b resp err \<Longrightarrow>
   retry_then_wait c (exit_at r = CancelledAfter) (events r)"
  by (induction req a b resp err r rule: attempts_induct_rule)
     (simp_all add: retry_then_wait_close_body closes_and_waits_close_body)

lemma attempts_delays_aux:
  "r = attempts c req a b resp err \<Longrightarrow>
   (delays (events r) = [] \<or> hd (delays (events r)) = b)
   \<and> successively (\<lambda>d d'. d' = next_backoff c d) (delays (events r))"
  by (induction req a b resp err r rule: attempts_induct_rule)
     (auto simp: successively_Cons)


lemma used_Context [simp]: "Context (used req) = Context req"
  by (simp add: used_def)

lemma reset_body_Context: "reset_body req a = Inr req' \<Longrightarrow> Context req' = Context req"
  by (auto simp: reset_body_def split: option.splits sum.splits if_splits)

lemma reset_body_used: "reset_body req a = Inr req' \<Longrightarrow> used req' = used req"
  by (auto simp: reset_body_def used_def split: option.splits sum.splits if_splits)

lemma used_used [simp]: "used (used req) = used req"
  by (simp add: used_def option.map_comp comp_def)

lemma request_at_step:
  "0 \<le> a \<Longrightarrow> reset_body (request_at req0 a) a = Inr req' \<Longrightarrow>
   used req' = request_at req0 (a + 1)"
  by (auto simp: request_at_def dest!: reset_body_used)

lemma attempts_sentinel_aux:
  "r = attempts c req a b resp err \<Longrightarrow> 0 \<le> a \<Longrightarrow> req = request_at req0 a \<Longrightarrow>
   (\<forall>i \<in> {a..maxRetries c}. reset_body (request_at req0 i) i \<noteq> Inl ErrMaxRetriesExceeded) \<Longrightarrow>
   err \<noteq> Some ErrMaxRetriesExceeded \<Longrightarrow> ret_err r = Some ErrMaxRetriesExceeded \<Longrightarrow>
     exit_at r = Exhausted
     \<and> length (outcomes (events r)) = nat (maxRetries c + 1 - a)
     \<and> (\<forall>(rs, e) \<in> set (outcomes (events r)). retryCondition c rs e)
     \<and> last ((resp, err) # outcomes (events r)) = (ret_resp r, None)"
proof (induction req a b resp err r rule: attempts_induct_rule)
  case (exhausted req a b resp err)
  then show ?case by (auto split: if_splits)
next
  case (replay_failed req a b resp err getErr)
  have "reset_body (request_at req0 a) a \<noteq> Inl ErrMaxRetriesExceeded"
    using replay_failed.hyps(1) replay_failed.prems(3) by simp
  then show ?case using replay_failed.hyps(3) replay_failed.prems(2,5) by simp
next
  case (not_retryable req a b resp err req' resp' err')
  then show ?case using roundtrip_url_error by auto
next
  case (continue req a b resp err req' resp' err')
  have err': "err' \<noteq> Some ErrMaxRetriesExceeded"
    using continue.hyps(4) by (rule roundtrip_url_error)
  have r0: "reset_body (request_at req0 a) a = Inr req'"
    using continue.hyps(3) continue.prems(2) by simp
  have nxt: "used req' = request_at req0 (a + 1)"
    using continue.prems(1) r0 by (rule request_at_step)
  let ?r = "attempts c (used req') (a + 1) (next_backoff c b) resp' err'"
  have "exit_at ?r = Exhausted
     \<and> length (outcomes (events ?r)) = nat (maxRetries c + 1 - (a + 1))
     \<and> (\<forall>(rs, e) \<in> set (outcomes (events ?r)). retryCondition c rs e)
     \<and> last ((resp', err') # outcomes (events ?r)) = (ret_resp ?r, None)"
    using continue.prems nxt err' by (intro continue.IH) auto
  then show ?case
    using continue.hyps(1,6) by (auto simp: nat_diff_distrib' nat_add_distrib)
qed auto

lemma attempt_outcome_eq:
  "reset_body (request_at req0 a) a = Inr req' \<Longrightarrow> roundtrip c a req' = out \<Longrightarrow>
   attempt_outcome c req0 a = out"
  by (simp add: attempt_outcome_def)

lemma attempts_run_aux:
  "r = attempts c req a b resp err \<Longrightarrow> 0 \<le> a \<Longrightarrow> a \<le> n \<Longrightarrow> n \<le> maxRetries c \<Longrightarrow>
   req = request_at req0 a \<Longrightarrow> undisturbed req0 a n \<Longrightarrow>
   (\<forall>i \<in> {a..<n}. judged_retryable c (attempt_outcome c req0 i)) \<Longrightarrow>
   \<not> judged_retryable c (attempt_outcome c req0 n) \<Longrightarrow>
     outcomes (events r) = map (attempt_outcome c req0) [a..n]
     \<and> (ret_resp r, ret_err r) = attempt_outcome c req0 n
     \<and> exit_at r = NotRetryable"
proof (induction req a b resp err r rule: attempts_induct_rule)
  case (exhausted req a b resp err)
  then show ?case by simp
next
  case (cancelled_before req a b resp err ce)
  have "Context req = Context req0"
    using cancelled_before.prems by (simp add: request_at_def)
  moreover have "Context req0 (BeforeAttempt a) = None"
    using cancelled_before.prems by (simp add: undisturbed_def)
  ultimately show ?case using cancelled_before.hyps by simp
next
  case (replay_failed req a b resp err getErr)
  have "\<not> isl (reset_body (request_at req0 a) a)"
    using replay_failed.prems by (simp add: undisturbed_def)
  then show ?case using replay_failed.hyps replay_failed.prems(4) by simp
next
  case (cancelled_after req a b resp err req' resp' err' ce)
  have "Context req' = Context req0"
    using cancelled_after.hyps(3) cancelled_after.prems(4)
    by (simp add: request_at_def reset_body_Context)
  moreover have "Context req0 (AfterAttempt a) = None"
    using cancelled_after.prems by (simp add: undisturbed_def)
  ultimately show ?case using cancelled_after.hyps by simp
next
  case (not_retryable req a b resp err req' resp' err')
  have "reset_body (request_at req0 a) a = Inr req'"
    using not_retryable.hyps(3) not_retryable.prems(4) by simp
  then have out: "attempt_outcome c req0 a = (resp', err')"
    using not_retryable.hyps by (intro attempt_outcome_eq)
  then have "\<not> judged_retryable c (attempt_outcome c req0 a)"
    using not_retryable.hyps by (simp add: judged_retryable_def)
  then have "a = n" using not_retryable.prems by (cases "a = n") auto
  then show ?case using out by (simp add: upto_rec1)
next
  case (cancelled_waiting req a b resp err req' resp' err' ce)
  have r0: "reset_body (request_at req0 a) a = Inr req'"
    using cancelled_waiting.hyps(3) cancelled_waiting.prems(4) by simp
  have ctx: "Context req' = Context req0"
    using cancelled_waiting.hyps(3) cancelled_waiting.prems(4)
    by (simp add: request_at_def reset_body_Context)
  have "attempt_outcome c req0 a = (resp', err')"
    using r0 cancelled_waiting.hyps by (intro attempt_outcome_eq)
  then have "judged_retryable c (attempt_outcome c req0 a)"
    using cancelled_waiting.hyps by (simp add: judged_retryable_def)
  then have "a < n" using cancelled_waiting.prems by (cases "a = n") auto
  then have "Context req0 (DuringWait a) = None"
    using cancelled_waiting.prems by (simp add: undisturbed_def)
  then show ?case using ctx cancelled_waiting.hyps by simp
next
  case (continue req a b resp err req' resp' err')
  have r0: "reset_body (request_at req0 a) a = Inr req'"
    using continue.hyps(3) continue.prems(4) by simp
  have nxt: "used req' = request_at req0 (a + 1)"
    using continue.prems(1) r0 by (rule request_at_step)
  have out: "attempt_outcome c req0 a = (resp', err')"
    using r0 continue.hyps by (intro attempt_outcome_eq)
  then have "judged_retryable c (attempt_outcome c req0 a)"
    using continue.hyps by (simp add: judged_retryable_def)
  then have lt: "a < n" using continue.prems by (cases "a = n") auto
  have "outcomes (events (attempts c (used req') (a + 1) (next_backoff c b) resp' err'))
          = map (attempt_outcome c req0) [a + 1..n]
        \<and> (ret_resp (attempts c (used req') (a + 1) (next_backoff c b) resp' err'),
            ret_err (attempts c (used req') (a + 1) (next_backoff c b) resp' err'))
          = attempt_outcome c req0 n
        \<and> exit_at (attempts c (used req') (a + 1) (next_backoff c b) resp' err') = NotRetryable"
    using continue.prems lt nxt
    by (intro continue.IH) (auto simp: undisturbed_def)
  then show ?case using lt out by (simp add: upto_rec1[of a n])
qed

lemma backoff_sequence_sorted:
  assumes "successively (\<lambda>d d'. d' = next_backoff c d) ds"
    and "ds = [] \<or> (0 \<le> hd ds \<and> hd ds \<le> maxBackoff c)"
    and "maxBackoff c < 2 ^ 53" and "backoffMultiplier c = Finite m" and "1 \<le> m"
    and "of_int (maxBackoff c) * m \<le> 2 ^ 62"
  shows "sorted ds \<and> (\<forall>d \<in> set ds. 0 \<le> d \<and> d \<le> maxBackoff c)"
  using assms(1,2)
proof (induction ds rule: induct_list012)
  case 1
  then show ?case by simp
next
  case (2 d)
  then show ?case by simp
next
  case (3 d d' ds)
  from "3.prems" have d: "0 \<le> d" "d \<le> maxBackoff c" and d': "d' = next_backoff c d"
    and succ: "successively (\<lambda>d d'. d' = next_backoff c d) (d' # ds)"
    by auto
  have le: "d \<le> d'" unfolding d' using d assms(3-) by (intro next_backoff_ge)
  have "d' \<le> maxBackoff c" unfolding d' by (rule next_backoff_le)
  moreover have "0 \<le> d'" using d le by simp
  ultimately have "d' # ds = [] \<or> (0 \<le> hd (d' # ds) \<and> hd (d' # ds) \<le> maxBackoff c)"
    by simp
  with succ have IH: "sorted (d' # ds) \<and> (\<forall>x \<in> set (d' # ds). 0 \<le> x \<and> x \<le> maxBackoff c)"
    by (rule "3.IH"(2))
  then have "\<forall>x \<in> set (d' # ds). d \<le> x" using le by auto
  then have "sorted (d # d' # ds)"
    using IH by (simp del: sorted_wrt.simps add: sorted_wrt.simps(2)[of _ d "d' # ds"])
  then show ?case using IH d by simp
qed

lemma backoff_sequence_capped:
  "successively (\<lambda>d d'. d' = next_backoff c d) ds \<Longrightarrow> \<forall>d \<in> set (tl ds). d \<le> maxBackoff c"
  by (induction ds rule: induct_list012) (auto simp: next_backoff_le)

lemma Do_Inl: "buffer_body req = Inl readErr \<Longrightarrow>
    Do c req = stop None (Some readErr) ReadFailed"
  by (simp add: Do_def)

lemma Do_Inr: "buffer_body req = Inr req0 \<Longrightarrow>
    Do c req = attempts c req0 0 (initialBackoff c) None None"
  by (simp add: Do_def)

lemma buffer_body_Context: "buffer_body req = Inr req0 \<Longrightarrow> Context req0 = Context req"
  by (auto simp: buffer_body_def split: option.splits prod.splits)


lemma buffer_body_failed:
  "Body req = Some rd \<Longrightarrow> GetBody req = None \<Longrightarrow> ReadAll rd = (bs, Some readErr) \<Longrightarrow>
   buffer_body req = Inl readErr"
  by (simp add: buffer_body_def)

lemmas eval_simps = Do_def buffer_body_def reset_body_def roundtrip_def close_body_def
  stop_def emit_def used_def drained_def New_def WithClient_def WithMaxRetries_def
  WithCondition_def WithInitialBackoff_def WithBackoffMultiplier_def WithMaxBackoff_def
  DefaultRetryCondition_def background_def cancelled_def deadline_during_first_attempt_def
  status_def always_def fails_twice_def fails_once_def get_request_def post_request_def
  retry_always_def Millisecond_def Second_def NewReader_def attempts.simps

section \<open>The default retry condition\<close>

text \<open>
  C4. \<open>DefaultRetryCondition resp err\<close> is true exactly when \<open>err\<close> is not nil, or \<open>resp\<close> is
  not nil and its status code is in \<open>[400, 500)\<close>; with both nil it returns false.
\<close>
theorem DefaultRetryCondition_iff:
  "(DefaultRetryCondition resp err \<longleftrightarrow>
      (\<exists>e. err = Some e) \<or> (\<exists>r. resp = Some r \<and> 400 \<le> StatusCode r \<and> StatusCode r < 500))
   \<and> \<not> DefaultRetryCondition None None"
  by (auto simp: DefaultRetryCondition_def split: option.splits)

theorem DefaultRetryCondition_iff_witness:
  "DefaultRetryCondition (Some (status 403)) None
   \<and> \<not> DefaultRetryCondition (Some (status 500)) None
   \<and> DefaultRetryCondition None (Some (UrlError ''connection refused''))
   \<and> \<not> DefaultRetryCondition None None"
  using DefaultRetryCondition_iff[of "Some (status 403)" None]
    DefaultRetryCondition_iff[of "Some (status 500)" None]
    DefaultRetryCondition_iff[of None "Some (UrlError ''connection refused'')"]
  by (simp add: status_def)

section \<open>The outcome that ends the loop\<close>

text \<open>
  C1, as the claim states it, fails: the context is looked at after every attempt, before
  the retry condition. Here the server answers 200, which the default condition does not
  retry, while the deadline passes during the attempt: \<open>Do\<close> makes the one attempt and
  returns nil and the context's error, not the outcome.
\<close>
theorem Do_cancelled_after_final_outcome:
  "\<not> DefaultRetryCondition (Some (status 200)) None
   \<and> outcomes (events (Do (New (always 200) []) (get_request\<lparr>Context := deadline_during_first_attempt\<rparr>)))
       = [(Some (status 200), None)]
   \<and> ret_resp (Do (New (always 200) []) (get_request\<lparr>Context := deadline_during_first_attempt\<rparr>)) = None
   \<and> ret_err (Do (New (always 200) []) (get_request\<lparr>Context := deadline_during_first_attempt\<rparr>))
       = Some (ContextErr DeadlineExceeded)"
  by (simp add: eval_simps)

text \<open>
  C1, amended. Let \<open>req0\<close> be the request as it enters the loop (the body was buffered
  without a read error, or needed no buffering), and let nothing but the retry condition
  end the call during attempts \<open>0\<close> to \<open>n\<close> (the context is not done, \<open>GetBody\<close> does not
  fail), with \<open>n \<le> maxRetries\<close>. If the outcomes of attempts \<open>0\<close> to \<open>n - 1\<close> are judged
  retryable and the outcome of attempt \<open>n\<close> is not, then \<open>Do\<close> makes exactly \<open>n + 1\<close>
  attempts and returns the response and the error of attempt \<open>n\<close> as they are.
\<close>
theorem Do_returns_first_final_outcome:
  assumes "buffer_body req = Inr req0" and "0 \<le> n" and "n \<le> maxRetries c"
    and "undisturbed req0 0 n"
    and "\<forall>i \<in> {0..<n}. judged_retryable c (attempt_outcome c req0 i)"
    and "\<not> judged_retryable c (attempt_outcome c req0 n)"
  shows "outcomes (events (Do c req)) = map (attempt_outcome c req0) [0..n]
       \<and> length (outcomes (events (Do c req))) = nat n + 1
       \<and> (ret_resp (Do c req), ret_err (Do c req)) = attempt_outcome c req0 n
       \<and> exit_at (Do c req) = NotRetryable"
proof -
  have "outcomes (events (Do c req)) = map (attempt_outcome c req0) [0..n]
     \<and> (ret_resp (Do c req), ret_err (Do c req)) = attempt_outcome c req0 n
     \<and> exit_at (Do c req) = NotRetryable"
    unfolding Do_Inr[OF assms(1)]
    using assms(2-) by (intro attempts_run_aux[where req0 = req0]) (simp_all add: request_at_def)
  moreover have "length [0..n] = nat n + 1" using assms(2) by simp
  ultimately show ?thesis by simp
qed

theorem Do_returns_first_final_outcome_witness:
  "length (outcomes (events (Do (New fails_twice []) get_request))) = 3
   \<and> ret_resp (Do (New fails_twice []) get_request) = Some (status 200)
   \<and> ret_err (Do (New fails_twice []) get_request) = None"
proof -
  let ?c = "New fails_twice []"
  have 1: "buffer_body get_request = Inr get_request"
    by (simp add: buffer_body_def get_request_def)
  have 2: "(2::int) \<le> maxRetries ?c" by (simp add: New_def)
  have 3: "undisturbed get_request 0 2"
    by (simp add: undisturbed_def get_request_def background_def reset_body_def
        request_at_def used_def)
  have out: "attempt_outcome ?c get_request i
      = (Some (status (if i + 1 < 3 then 403 else 200)), None)" for i
    by (simp add: attempt_outcome_def get_request_def reset_body_def roundtrip_def New_def
        fails_twice_def request_at_def used_def)
  have cond: "retryCondition ?c = DefaultRetryCondition" by (simp add: New_def)
  have 4: "\<forall>i \<in> {0..<2}. judged_retryable ?c (attempt_outcome ?c get_request i)"
    unfolding judged_retryable_def out cond
    by (simp add: DefaultRetryCondition_def status_def)
  have 5: "\<not> judged_retryable ?c (attempt_outcome ?c get_request 2)"
    unfolding judged_retryable_def out cond
    by (simp add: DefaultRetryCondition_def status_def)
  show ?thesis
    using Do_returns_first_final_outcome[OF 1 _ 2 3 4 5] by (simp add: out)
qed

section \<open>The sentinel error\<close>

text \<open>
  C2, as the claim states it, fails: lines 130 and 152 return the error of \<open>io.ReadAll\<close>
  and of \<open>GetBody\<close> as they are, and \<open>ErrMaxRetriesExceeded\<close> is exported. A body whose
  read fails with that value makes \<open>Do\<close> return it with no attempt made, and a \<open>GetBody\<close>
  that fails with it makes \<open>Do\<close> return it after one attempt of the six of the budget.
\<close>
theorem Do_sentinel_passed_on:
  "maxRetries (New (always 403) []) = 5
   \<and> ret_err (Do (New (always 403) []) (post_request (Reader ''par'' (Some ErrMaxRetriesExceeded))))
       = Some ErrMaxRetriesExceeded
   \<and> outcomes (events (Do (New (always 403) [])
         (post_request (Reader ''par'' (Some ErrMaxRetriesExceeded))))) = []
   \<and> ret_err (Do (New (always 403) []) (failing_replay_request ErrMaxRetriesExceeded))
       = Some ErrMaxRetriesExceeded
   \<and> ret_resp (Do (New (always 403) []) (failing_replay_request ErrMaxRetriesExceeded)) = None
   \<and> outcomes (events (Do (New (always 403) []) (failing_replay_request ErrMaxRetriesExceeded)))
       = [(Some (status 403), None)]"
  by (simp add: eval_simps failing_replay_request_def next_backoff_int[where k=2])

text \<open>
  C2, amended. Provided that neither the read of the request body nor \<open>GetBody\<close>
  returns \<open>ErrMaxRetriesExceeded\<close> as its own error: if \<open>Do\<close> returns
  \<open>ErrMaxRetriesExceeded\<close>, it has left the loop at its end (line 189) after as many
  attempts as the budget holds, \<open>maxRetries + 1\<close> (none when that is not positive);
  every outcome was judged retryable; the last attempt returned no error; and the
  response returned with the sentinel is the one of the last attempt (nil when there was
  no attempt). \<open>last ((None, None) # outcomes \<dots>)\<close> is the value of the variables
  \<open>resp\<close> and \<open>err\<close> when the loop ends.
\<close>
theorem Do_sentinel_only_when_exhausted:
  assumes "no_foreign_sentinel c req"
    and "ret_err (Do c req) = Some ErrMaxRetriesExceeded"
  shows "exit_at (Do c req) = Exhausted
       \<and> length (outcomes (events (Do c req))) = nat (maxRetries c + 1)
       \<and> (\<forall>(resp, err) \<in> set (outcomes (events (Do c req))). retryCondition c resp err)
       \<and> last ((None, None) # outcomes (events (Do c req))) = (ret_resp (Do c req), None)"
proof (cases "buffer_body req")
  case (Inl readErr)
  then show ?thesis using assms by (simp add: Do_Inl no_foreign_sentinel_def)
next
  case (Inr req0)
  have free: "\<forall>i \<in> {0..maxRetries c}.
      reset_body (request_at req0 i) i \<noteq> Inl ErrMaxRetriesExceeded"
    using assms(1) by (simp add: no_foreign_sentinel_def Inr)
  have "exit_at (attempts c req0 0 (initialBackoff c) None None) = Exhausted
     \<and> length (outcomes (events (attempts c req0 0 (initialBackoff c) None None)))
         = nat (maxRetries c + 1 - 0)
     \<and> (\<forall>(rs, e) \<in> set (outcomes (events (attempts c req0 0 (initialBackoff c) None None))).
          retryCondition c rs e)
     \<and> last ((None, None) # outcomes (events (attempts c req0 0 (initialBackoff c) None None)))
         = (ret_resp (attempts c req0 0 (initialBackoff c) None None), None)"
    using free assms(2)
    by (intro attempts_sentinel_aux[OF refl, where ?req0.0 = req0])
       (simp_all add: request_at_def Do_Inr[OF Inr])
  then show ?thesis by (simp add: Do_Inr[OF Inr])
qed

theorem Do_sentinel_only_when_exhausted_witness:
  "ret_err (Do (New (always 403) [WithMaxRetries 2]) get_request) = Some ErrMaxRetriesExceeded
   \<and> length (outcomes (events (Do (New (always 403) [WithMaxRetries 2]) get_request))) = 3
   \<and> ret_resp (Do (New (always 403) [WithMaxRetries 2]) get_request) = Some (status 403)"
proof -
  let ?r = "Do (New (always 403) [WithMaxRetries 2]) get_request"
  have f: "no_foreign_sentinel (New (always 403) [WithMaxRetries 2]) get_request"
    by (simp add: no_foreign_sentinel_def buffer_body_def get_request_def reset_body_def
        request_at_def used_def)
  have e: "ret_err ?r = Some ErrMaxRetriesExceeded"
    by (simp add: eval_simps next_backoff_int[where k=2])
  have o: "outcomes (events ?r)
      = [(Some (status 403), None), (Some (status 403), None), (Some (status 403), None)]"
    by (simp add: eval_simps next_backoff_int[where k=2])
  have m: "maxRetries (New (always 403) [WithMaxRetries 2]) = 2"
    by (simp add: New_def WithMaxRetries_def)
  show ?thesis using Do_sentinel_only_when_exhausted[OF f e] e by (simp add: m o)
qed

section \<open>The wait after the last attempt\<close>

text \<open>
  C3, as the claim states it, fails: the \<open>select\<close> of lines 175-183 is reached after every
  outcome judged retryable, whatever the loop counter. With \<open>maxRetries = 0\<close> and a server
  that always answers 403, the one attempt uses up the budget, and \<open>Do\<close> still closes
  the response body and waits for the initial backoff before it returns.
\<close>
theorem Do_waits_after_last_attempt:
  "DefaultRetryCondition (Some (status 403)) None
   \<and> maxRetries (New (always 403) [WithMaxRetries 0]) = 0
   \<and> events (Do (New (always 403) [WithMaxRetries 0]) get_request)
       = [Attempt 0 None (Some (status 403)) None, CloseResp (status 403),
          Wait (100 * Millisecond) None]
   \<and> exit_at (Do (New (always 403) [WithMaxRetries 0]) get_request) = Exhausted"
  by (simp add: eval_simps next_backoff_int[where k=2])

text \<open>
  C3, amended. Whenever the retry condition judges the outcome of an attempt retryable
  (and the look at the context right after the attempt has not ended the call), \<open>Do\<close>
  closes the body of the response, when there is one, and starts a wait, whether or not
  another attempt will follow. So a call that ends in Terminal-Failure (the return of
  line 189), with \<open>maxRetries \<ge> 0\<close>, has made \<open>maxRetries + 1\<close> attempts and as many
  waits: the wait after the last attempt is made too, and the call ends only when the
  timer of that wait has fired.
\<close>
theorem Do_retry_then_wait:
  "retry_then_wait c (exit_at (Do c req) = CancelledAfter) (events (Do c req))
   \<and> (exit_at (Do c req) = Exhausted \<and> 0 \<le> maxRetries c \<longrightarrow>
        length (outcomes (events (Do c req))) = nat (maxRetries c + 1)
        \<and> length (delays (events (Do c req))) = nat (maxRetries c + 1)
        \<and> (\<exists>d. last (events (Do c req)) = Wait d None))"
proof (cases "buffer_body req")
  case (Inl readErr)
  then show ?thesis by (simp add: Do_Inl)
next
  case (Inr req0)
  show ?thesis
    using attempts_exhausted_waits_aux[OF refl, of c req0 0 "initialBackoff c" None None]
      attempts_retry_then_wait_aux[OF refl, of c req0 0 "initialBackoff c" None None]
    by (simp add: Do_Inr[OF Inr])
qed

theorem Do_retry_then_wait_witness:
  "events (Do (New (always 403) [WithMaxRetries 1]) get_request)
     = [Attempt 0 None (Some (status 403)) None, CloseResp (status 403),
        Wait (100 * Millisecond) None,
        Attempt 1 None (Some (status 403)) None, CloseResp (status 403),
        Wait (200 * Millisecond) None]
   \<and> length (outcomes (events (Do (New (always 403) [WithMaxRetries 1]) get_request))) = 2
   \<and> length (delays (events (Do (New (always 403) [WithMaxRetries 1]) get_request))) = 2
   \<and> retry_then_wait (New (always 403) [WithMaxRetries 1]) False
        [Attempt 0 None (Some (status 403)) None, CloseResp (status 403),
         Wait (100 * Millisecond) None,
         Attempt 1 None (Some (status 403)) None, CloseResp (status 403),
         Wait (200 * Millisecond) None]"
proof -
  let ?c = "New (always 403) [WithMaxRetries 1]"
  have ev: "events (Do ?c get_request)
     = [Attempt 0 None (Some (status 403)) None, CloseResp (status 403),
        Wait (100 * Millisecond) None,
        Attempt 1 None (Some (status 403)) None, CloseResp (status 403),
        Wait (200 * Millisecond) None]"
    by (simp add: eval_simps next_backoff_int[where k=2])
  have ex: "exit_at (Do ?c get_request) = Exhausted"
    by (simp add: eval_simps next_backoff_int[where k=2])
  have m: "maxRetries ?c = 1" by (simp add: New_def WithMaxRetries_def)
  show ?thesis
    using Do_retry_then_wait[of ?c get_request] by (simp add: ex m ev)
qed

section \<open>The backoff delays\<close>

text \<open>
  C5, as the claim states it, fails. With \<open>initialBackoff = maxBackoff = 2^53 + 1\<close>
  nanoseconds and \<open>backoffMultiplier = 1\<close> the second delay is \<open>2^53\<close>, less than the first
  and not the product of the first and the multiplier: \<open>float64(backoff)\<close> rounds.
\<close>
theorem backoff_delays_can_decrease:
  "0 \<le> initialBackoff (New (always 403) [WithMaxRetries 1, WithInitialBackoff 9007199254740993,
         WithBackoffMultiplier (Finite 1), WithMaxBackoff 9007199254740993])
   \<and> initialBackoff (New (always 403) [WithMaxRetries 1, WithInitialBackoff 9007199254740993,
         WithBackoffMultiplier (Finite 1), WithMaxBackoff 9007199254740993])
     \<le> maxBackoff (New (always 403) [WithMaxRetries 1, WithInitialBackoff 9007199254740993,
         WithBackoffMultiplier (Finite 1), WithMaxBackoff 9007199254740993])
   \<and> backoffMultiplier (New (always 403) [WithMaxRetries 1, WithInitialBackoff 9007199254740993,
         WithBackoffMultiplier (Finite 1), WithMaxBackoff 9007199254740993]) = Finite 1
   \<and> delays (events (Do (New (always 403) [WithMaxRetries 1, WithInitialBackoff 9007199254740993,
         WithBackoffMultiplier (Finite 1), WithMaxBackoff 9007199254740993]) get_request))
       = [9007199254740993, 9007199254740992]"
  by (simp add: eval_simps next_backoff_2_53_plus_1)

text \<open>
  C5, amended. For every configuration, each next delay of a call is the smaller of
  \<open>maxBackoff\<close> and \<open>time.Duration(float64(d) * backoffMultiplier)\<close> for the current
  delay \<open>d\<close>: the product rounded to a \<open>float64\<close>, its fraction discarded. For every
  configuration with \<open>maxBackoff \<ge> initialBackoff\<close>, no delay exceeds \<open>maxBackoff\<close>. For
  every configuration with \<open>0 \<le> initialBackoff \<le> maxBackoff < 2^53\<close> nanoseconds and a
  finite \<open>backoffMultiplier = m \<ge> 1\<close> with \<open>maxBackoff * m \<le> 2^62\<close>, the delays are
  non-decreasing.
\<close>
theorem backoff_delays_sorted_capped:
  "successively
     (\<lambda>d d'. d' = min (int64_of_float64 (f64_mul (float64_of_int d) (backoffMultiplier c)))
                     (maxBackoff c))
     (delays (events (Do c req)))
   \<and> (initialBackoff c \<le> maxBackoff c \<longrightarrow>
        (\<forall>d \<in> set (delays (events (Do c req))). d \<le> maxBackoff c))
   \<and> (0 \<le> initialBackoff c \<and> initialBackoff c \<le> maxBackoff c \<and> maxBackoff c < 2 ^ 53
        \<and> backoffMultiplier c = Finite m \<and> 1 \<le> m \<and> of_int (maxBackoff c) * m \<le> 2 ^ 62 \<longrightarrow>
        sorted (delays (events (Do c req))))"
proof (cases "buffer_body req")
  case (Inl readErr)
  then show ?thesis by (simp add: Do_Inl)
next
  case (Inr req0)
  let ?ds = "delays (events (Do c req))"
  have hd: "?ds = [] \<or> hd ?ds = initialBackoff c"
    and succ: "successively (\<lambda>d d'. d' = next_backoff c d) ?ds"
    using attempts_delays_aux[OF refl, of c req0 0 "initialBackoff c" None None]
    by (simp_all add: Do_Inr[OF Inr])
  have "next_backoff c d
      = min (int64_of_float64 (f64_mul (float64_of_int d) (backoffMultiplier c))) (maxBackoff c)"
    for d
    by (simp add: next_backoff_def Let_def min_def)
  then have formula: "successively
      (\<lambda>d d'. d' = min (int64_of_float64 (f64_mul (float64_of_int d) (backoffMultiplier c)))
                      (maxBackoff c))
      ?ds"
    using succ by simp
  have capped: "\<forall>d \<in> set ?ds. d \<le> maxBackoff c" if "initialBackoff c \<le> maxBackoff c"
  proof (cases ?ds)
    case Nil
    then show ?thesis by simp
  next
    case (Cons d ds)
    then have "d \<le> maxBackoff c" using hd that by simp
    moreover have "\<forall>x \<in> set ds. x \<le> maxBackoff c"
      using backoff_sequence_capped[OF succ] Cons by simp
    ultimately show ?thesis using Cons by simp
  qed
  have mono: "sorted ?ds"
    if "0 \<le> initialBackoff c" "initialBackoff c \<le> maxBackoff c" "maxBackoff c < 2 ^ 53"
      "backoffMultiplier c = Finite m" "1 \<le> m" "of_int (maxBackoff c) * m \<le> 2 ^ 62"
  proof -
    have "sorted ?ds \<and> (\<forall>d \<in> set ?ds. 0 \<le> d \<and> d \<le> maxBackoff c)"
      using succ hd that by (intro backoff_sequence_sorted[where m = m]) auto
    then show ?thesis by simp
  qed
  show ?thesis using formula capped mono by blast
qed

theorem backoff_delays_sorted_capped_witness:
  "sorted (delays (events (Do (New (always 403) []) get_request)))
   \<and> delays (events (Do (New (always 403) []) get_request))
       = [100 * Millisecond, 200 * Millisecond, 400 * Millisecond, 800 * Millisecond,
          1600 * Millisecond, 2 * Second]"
proof -
  let ?c = "New (always 403) []"
  have "sorted (delays (events (Do ?c get_request)))"
    using backoff_delays_sorted_capped[of ?c get_request 2]
    by (simp add: New_def Millisecond_def Second_def)
  moreover have "delays (events (Do ?c get_request))
       = [100 * Millisecond, 200 * Millisecond, 400 * Millisecond, 800 * Millisecond,
          1600 * Millisecond, 2 * Second]"
    by (simp add: eval_simps next_backoff_int[where k=2])
  ultimately show ?thesis by simp
qed

text \<open>
  C10. The first delay of a call, when there is one, is \<open>initialBackoff\<close> itself, also
  when that exceeds \<open>maxBackoff\<close>; every later delay is at most \<open>maxBackoff\<close>.
\<close>
theorem Do_first_delay_uncapped:
  "(delays (events (Do c req)) = [] \<or> hd (delays (events (Do c req))) = initialBackoff c)
   \<and> (delays (events (Do c req)) \<noteq> [] \<and> maxBackoff c < initialBackoff c \<longrightarrow>
        maxBackoff c < hd (delays (events (Do c req))))
   \<and> (\<forall>d \<in> set (tl (delays (events (Do c req)))). d \<le> maxBackoff c)"
proof (cases "buffer_body req")
  case (Inl readErr)
  then show ?thesis by (simp add: Do_Inl)
next
  case (Inr req0)
  let ?ds = "delays (events (Do c req))"
  have hd: "?ds = [] \<or> hd ?ds = initialBackoff c"
    and succ: "successively (\<lambda>d d'. d' = next_backoff c d) ?ds"
    using attempts_delays_aux[OF refl, of c req0 0 "initialBackoff c" None None]
    by (simp_all add: Do_Inr[OF Inr])
  show ?thesis using hd backoff_sequence_capped[OF succ] by auto
qed

theorem Do_first_delay_uncapped_witness:
  "delays (events (Do (New (always 403)
       [WithMaxRetries 1, WithInitialBackoff (5 * Second), WithMaxBackoff (2 * Second)]) get_request))
     = [5 * Second, 2 * Second]
   \<and> 2 * Second < hd (delays (events (Do (New (always 403)
       [WithMaxRetries 1, WithInitialBackoff (5 * Second), WithMaxBackoff (2 * Second)]) get_request)))"
proof -
  let ?c = "New (always 403)
       [WithMaxRetries 1, WithInitialBackoff (5 * Second), WithMaxBackoff (2 * Second)]"
  have ds: "delays (events (Do ?c get_request)) = [5 * Second, 2 * Second]"
    by (simp add: eval_simps next_backoff_int[where k=2])
  have c: "maxBackoff ?c = 2 * Second" "initialBackoff ?c = 5 * Second"
    by (simp_all add: New_def WithMaxRetries_def WithInitialBackoff_def WithMaxBackoff_def)
  have "2 * Second < hd (delays (events (Do ?c get_request)))"
    using Do_first_delay_uncapped[of ?c get_request] ds
    by (simp add: c Second_def Millisecond_def)
  then show ?thesis using ds by simp
qed

section \<open>The request body\<close>



text \<open>
  C9. If the read of the request body at line 128 fails, \<open>Do\<close> returns nil and the read
  error, and does nothing else: no attempt, no wait.
\<close>
theorem Do_buffering_error:
  assumes "Body req = Some rd" and "GetBody req = None" and "ReadAll rd = (bs, Some readErr)"
  shows "ret_resp (Do c req) = None \<and> ret_err (Do c req) = Some readErr
       \<and> outcomes (events (Do c req)) = [] \<and> events (Do c req) = []"
  by (simp add: Do_Inl[OF buffer_body_failed[OF assms]])

theorem Do_buffering_error_witness:
  "ret_resp (Do (New (always 200) []) (post_request (Reader ''par'' (Some (OtherErr ''unexpected EOF''))))) = None
   \<and> ret_err (Do (New (always 200) []) (post_request (Reader ''par'' (Some (OtherErr ''unexpected EOF'')))))
       = Some (OtherErr ''unexpected EOF'')
   \<and> events (Do (New (always 200) []) (post_request (Reader ''par'' (Some (OtherErr ''unexpected EOF''))))) = []"
  using Do_buffering_error[of "post_request (Reader ''par'' (Some (OtherErr ''unexpected EOF'')))"
      "Reader ''par'' (Some (OtherErr ''unexpected EOF''))" "''par''" "OtherErr ''unexpected EOF''"
      "New (always 200) []"]
  by (simp add: post_request_def)

section \<open>Cancellation before the first attempt\<close>

text \<open>
  C7, as the claim states it, fails: the body is buffered before the context is looked at,
  and the context is looked at only inside the loop. With a context cancelled before the
  call, a body whose read fails makes \<open>Do\<close> return the read error, and \<open>maxRetries = -1\<close>
  makes it return \<open>ErrMaxRetriesExceeded\<close>.
\<close>
theorem Do_cancelled_before_start_other_error:
  "cancelled (BeforeAttempt 0) = Some Canceled
   \<and> ret_err (Do (New (always 200) [])
         ((post_request (Reader ''par'' (Some (OtherErr ''unexpected EOF''))))\<lparr>Context := cancelled\<rparr>))
       = Some (OtherErr ''unexpected EOF'')
   \<and> ret_err (Do (New (always 200) [WithMaxRetries (- 1)]) (get_request\<lparr>Context := cancelled\<rparr>))
       = Some ErrMaxRetriesExceeded"
  by (simp add: eval_simps)

text \<open>
  C7, amended. If the context is done when it is first looked at, \<open>Do\<close> makes no attempt;
  and if moreover \<open>maxRetries \<ge> 0\<close> and buffering the body did not fail, \<open>Do\<close> returns nil
  and the error of the context.
\<close>
theorem Do_cancelled_before_start:
  assumes "Context req (BeforeAttempt 0) = Some ce"
  shows "outcomes (events (Do c req)) = []
       \<and> (0 \<le> maxRetries c \<and> \<not> isl (buffer_body req) \<longrightarrow>
            ret_resp (Do c req) = None \<and> ret_err (Do c req) = Some (ContextErr ce))"
proof (cases "buffer_body req")
  case (Inl readErr)
  then show ?thesis by (simp add: Do_Inl)
next
  case (Inr req0)
  then have ctx: "Context req0 (BeforeAttempt 0) = Some ce"
    using assms by (simp add: buffer_body_Context)
  show ?thesis
  proof (cases "0 \<le> maxRetries c")
    case True
    then show ?thesis
      by (simp add: Do_Inr[OF Inr] attempts_cancelled_before[OF True ctx])
  next
    case False
    then show ?thesis by (simp add: Do_Inr[OF Inr] attempts_exhausted)
  qed
qed

theorem Do_cancelled_before_start_witness:
  "outcomes (events (Do (New (always 200) [WithMaxRetries 3]) (get_request\<lparr>Context := cancelled\<rparr>))) = []
   \<and> ret_resp (Do (New (always 200) [WithMaxRetries 3]) (get_request\<lparr>Context := cancelled\<rparr>)) = None
   \<and> ret_err (Do (New (always 200) [WithMaxRetries 3]) (get_request\<lparr>Context := cancelled\<rparr>))
       = Some (ContextErr Canceled)"
  using Do_cancelled_before_start[of "get_request\<lparr>Context := cancelled\<rparr>" Canceled
      "New (always 200) [WithMaxRetries 3]"]
  by (simp add: cancelled_def get_request_def buffer_body_def New_def WithMaxRetries_def)

section \<open>No retries\<close>

text \<open>
  C8. With \<open>maxRetries = 0\<close>, \<open>Do\<close> makes at most one attempt, whatever the retry condition
  answers.
\<close>
theorem Do_no_retries_at_most_one_attempt:
  assumes "maxRetries c = 0"
  shows "length (outcomes (events (Do c req))) \<le> 1"
proof (cases "buffer_body req")
  case (Inl readErr)
  then show ?thesis by (simp add: Do_Inl)
next
  case (Inr req0)
  show ?thesis
    using attempts_count_aux[OF refl, of c req0 0 "initialBackoff c" None None] assms
    by (simp add: Do_Inr[OF Inr])
qed

theorem Do_no_retries_at_most_one_attempt_witness:
  "length (outcomes (events (Do (New (always 403) [WithMaxRetries 0, WithCondition retry_always])
      get_request))) = 1"
proof -
  let ?r = "Do (New (always 403) [WithMaxRetries 0, WithCondition retry_always]) get_request"
  have "length (outcomes (events ?r)) \<le> 1"
    by (rule Do_no_retries_at_most_one_attempt)
       (simp add: New_def WithMaxRetries_def WithCondition_def)
  moreover have "outcomes (events ?r) \<noteq> []"
    by (simp add: eval_simps next_backoff_int[where k=2])
  ultimately show ?thesis by (cases "outcomes (events ?r)") simp_all
qed

end
